theory Spec2Isabelle
  imports Main "HOL-Library.Word"
begin

section \<open>Python values used by \<^verbatim>\<open>vr_music_remote.py\<close>\<close>

text \<open>
  A Python \<^verbatim>\<open>str\<close> is a sequence of Unicode code points and \<^verbatim>\<open>len\<close> counts code points,
  so a string is modelled as the list of its code points. The source contains two
  characters outside ASCII: the note U+1F3B5 of the display prefix and the bullet U+2022
  of \<^verbatim>\<open>MARQUEE_GAP\<close>; each is one element of the list.
\<close>

type_synonym pystr = "nat list"

type_synonym bytes = "8 word list"

definition asc :: "string \<Rightarrow> pystr" where
  "asc s = map of_char s"

text \<open>
  \<^verbatim>\<open>str.strip()\<close> without argument removes the code points for which \<^verbatim>\<open>str.isspace\<close>
  holds, at both ends.
\<close>

definition isspace :: "nat \<Rightarrow> bool" where
  "isspace c \<longleftrightarrow>
     (9 \<le> c \<and> c \<le> 13) \<or> (28 \<le> c \<and> c \<le> 32) \<or> c = 0x85 \<or> c = 0xA0 \<or> c = 0x1680 \<or>
     (0x2000 \<le> c \<and> c \<le> 0x200A) \<or> c = 0x2028 \<or> c = 0x2029 \<or> c = 0x202F \<or>
     c = 0x205F \<or> c = 0x3000"

definition strip :: "pystr \<Rightarrow> pystr" where
  "strip xs = rev (dropWhile isspace (rev (dropWhile isspace xs)))"

text \<open>\<^verbatim>\<open>xs[i:j]\<close> with integer bounds: negative bounds count from the end, all are clamped.\<close>

definition py_slice :: "'a list \<Rightarrow> int \<Rightarrow> int \<Rightarrow> 'a list" where
  "py_slice xs i j =
     (let n = int (length xs);
          lo = (if i < 0 then max 0 (i + n) else min i n);
          hi = (if j < 0 then max 0 (j + n) else min j n)
      in take (nat (hi - lo)) (drop (nat lo) xs))"

text \<open>\<^verbatim>\<open>s.ljust(w)\<close>: pad with spaces on the right up to width \<open>w\<close>.\<close>

definition ljust :: "pystr \<Rightarrow> int \<Rightarrow> pystr" where
  "ljust xs w = xs @ replicate (nat w - length xs) 32"

section \<open>Configuration constants\<close>

definition ART_SIZE :: int where
  "ART_SIZE = 86"

definition MARQUEE_ENABLED :: bool where
  "MARQUEE_ENABLED = True"

definition MARQUEE_WINDOW_CHARS :: int where
  "MARQUEE_WINDOW_CHARS = 36"

definition MARQUEE_DELAY_MS :: int where
  "MARQUEE_DELAY_MS = 350"

definition MARQUEE_START_PAUSE_MS :: int where
  "MARQUEE_START_PAUSE_MS = 3500"

definition MARQUEE_GAP :: pystr where
  "MARQUEE_GAP = [32, 32, 32, 0x2022, 32, 32, 32]"

section \<open>The media session provider and \<^verbatim>\<open>get_now_playing_and_art\<close>\<close>

text \<open>
  What one poll observes of the Windows media session. Every awaited call of the
  function may raise; the constructors name the place. A thumbnail is opened, its
  \<^verbatim>\<open>size\<close> is read, and when the size is positive the bytes are loaded and read.
\<close>

datatype error = Exception

datatype read_outcome = Read_raises | Read_ok bytes

datatype thumbnail = Open_raises | Stream int read_outcome

record media_props =
  title :: "pystr option"
  artist :: "pystr option"
  thumbnail :: "thumbnail option"

datatype provider =
    Request_raises
  | No_session
  | Props_raises
  | Session media_props

text \<open>\<^verbatim>\<open>(x or "")\<close> for an attribute that is a string or \<^verbatim>\<open>None\<close>.\<close>

definition or_empty :: "pystr option \<Rightarrow> pystr" where
  "or_empty x = (case x of None \<Rightarrow> [] | Some s \<Rightarrow> s)"

text \<open>Lines 84 to 96: the \<^verbatim>\<open>try\<close> block around the thumbnail, with its handler.\<close>

definition read_thumbnail :: "thumbnail \<Rightarrow> bytes option" where
  "read_thumbnail thumb =
     (case thumb of
        Open_raises \<Rightarrow> None
      | Stream sz rd \<Rightarrow>
          if sz > 0 then (case rd of Read_raises \<Rightarrow> None | Read_ok buf \<Rightarrow> Some buf)
          else None)"

definition get_now_playing_and_art :: "provider \<Rightarrow> error + (pystr \<times> pystr \<times> bytes option)" where
  "get_now_playing_and_art p =
     (case p of
        Request_raises \<Rightarrow> Inl Exception
      | No_session \<Rightarrow> Inr (asc ''Nothing playing'', [], None)
      | Props_raises \<Rightarrow> Inl Exception
      | Session props \<Rightarrow>
          (let t = strip (or_empty (title props));
               a = strip (or_empty (artist props));
               img_bytes = (case thumbnail props of None \<Rightarrow> None | Some thumb \<Rightarrow> read_thumbnail thumb);
               t' = (if t = [] \<and> a = [] then asc ''Playing (no metadata)'' else t)
           in Inr (t', a, img_bytes)))"

section \<open>The update loop\<close>

text \<open>
  The loop runs in the worker thread and reaches the user interface only through
  \<^verbatim>\<open>self.after(0, callback, argument)\<close>. One such scheduled call is a \<open>ui_call\<close>.
\<close>

datatype ui_call = Start_marquee pystr | Set_art "bytes option"

definition glyph :: pystr where
  "glyph = [0x1F3B5, 32]"

definition display_line :: "pystr \<Rightarrow> pystr" where
  "display_line t = (if t \<noteq> [] then glyph @ t else glyph @ asc ''(unknown)'')"

definition error_line :: pystr where
  "error_line = glyph @ asc ''(unable to read media session)''"

text \<open>
  One pass through the body of the \<^verbatim>\<open>while\<close> loop (lines 279 to 292): the stored
  \<^verbatim>\<open>last\<close> before (here \<open>prev\<close>), the provider's observation, the stored \<^verbatim>\<open>last\<close> after and
  the calls scheduled in this pass, in order.
\<close>

definition update_iter ::
  "(pystr \<times> pystr) option \<Rightarrow> provider \<Rightarrow> (pystr \<times> pystr) option \<times> ui_call list" where
  "update_iter prev p =
     (case get_now_playing_and_art p of
        Inr (t, a, img_bytes) \<Rightarrow>
          (let cur = (t, a) in
           if Some cur \<noteq> prev
           then (Some cur, [Start_marquee (display_line t), Set_art img_bytes])
           else (prev, []))
      | Inl e \<Rightarrow> (prev, [Start_marquee error_line, Set_art None]))"

text \<open>
  The loop over the observations of successive polls, until the stop flag is seen:
  the calls scheduled by each pass.
\<close>

fun update_loop :: "(pystr \<times> pystr) option \<Rightarrow> provider list \<Rightarrow> ui_call list list" where
  "update_loop prev [] = []"
| "update_loop prev (p # ps) =
     (case update_iter prev p of (prev', calls) \<Rightarrow> calls # update_loop prev' ps)"

text \<open>The stored \<^verbatim>\<open>last\<close> once the passes are done.\<close>

fun update_last :: "(pystr \<times> pystr) option \<Rightarrow> provider list \<Rightarrow> (pystr \<times> pystr) option" where
  "update_last prev [] = prev"
| "update_last prev (p # ps) = update_last (fst (update_iter prev p)) ps"

text \<open>The pair \<^verbatim>\<open>(title, artist)\<close> of a result \<^verbatim>\<open>(title, artist, img_bytes)\<close>.\<close>

definition track :: "pystr \<times> pystr \<times> bytes option \<Rightarrow> pystr \<times> pystr" where
  "track r = (fst r, fst (snd r))"

section \<open>The window: marquee, artwork and the timers of Tk\<close>

text \<open>
  The fields of \<^verbatim>\<open>VRMusicRemote\<close> that the marquee and the artwork setter use, and the
  part of Tk they act on: \<open>timers\<close> are the pending \<^verbatim>\<open>after\<close> timers (identifier and
  delay, in the order they were armed; the callback of each is \<^verbatim>\<open>_tick_marquee\<close>),
  \<open>next_id\<close> numbers the identifiers, \<open>shown\<close> lists every value given to
  \<^verbatim>\<open>now_playing_var.set\<close>, oldest first. The decoded image type is a parameter.
\<close>

record 'img app =
  stop :: bool
  marquee_run :: pystr
  marquee_i :: int
  marquee_job :: "nat option"
  marquee_pause_job :: "nat option"
  now_playing_var :: pystr
  photo :: "'img option"
  art_label_image :: "'img option"
  timers :: "(nat \<times> int) list"
  next_id :: nat
  shown :: "pystr list"

definition init :: "'img app" where
  "init = \<lparr> stop = False, marquee_run = [], marquee_i = 0, marquee_job = None,
            marquee_pause_job = None, now_playing_var = glyph @ asc ''(loading...)'',
            photo = None, art_label_image = None, timers = [], next_id = 0, shown = [] \<rparr>"

definition var_set :: "pystr \<Rightarrow> 'img app \<Rightarrow> 'img app" where
  "var_set v s = s\<lparr> now_playing_var := v, shown := shown s @ [v] \<rparr>"

text \<open>\<^verbatim>\<open>self.after(ms, self._tick_marquee)\<close> returns the identifier of the new timer.\<close>

definition after :: "int \<Rightarrow> 'img app \<Rightarrow> nat \<times> 'img app" where
  "after ms s = (next_id s, s\<lparr> timers := timers s @ [(next_id s, ms)], next_id := Suc (next_id s) \<rparr>)"

text \<open>
  \<^verbatim>\<open>self.after_cancel(id)\<close> inside \<^verbatim>\<open>try\<close>/\<^verbatim>\<open>except\<close>: the timer is removed when it is
  pending, and nothing happens when it has fired already.
\<close>

definition after_cancel :: "nat \<Rightarrow> 'img app \<Rightarrow> 'img app" where
  "after_cancel i s = s\<lparr> timers := filter (\<lambda>e. fst e \<noteq> i) (timers s) \<rparr>"

text \<open>Lines 215 to 227 of \<^verbatim>\<open>_start_marquee\<close>: cancel any existing jobs.\<close>

definition cancel_jobs :: "'img app \<Rightarrow> 'img app" where
  "cancel_jobs s =
     (let s1 = (case marquee_job s of None \<Rightarrow> s
                | Some j \<Rightarrow> (after_cancel j s)\<lparr> marquee_job := None \<rparr>)
      in case marquee_pause_job s1 of None \<Rightarrow> s1
         | Some j \<Rightarrow> (after_cancel j s1)\<lparr> marquee_pause_job := None \<rparr>)"

definition start_marquee :: "pystr \<Rightarrow> 'img app \<Rightarrow> 'img app" where
  "start_marquee text s =
     (let s2 = cancel_jobs s
      in if \<not> MARQUEE_ENABLED then var_set text s2
         else
           (let t = strip text in
            if int (length t) \<le> MARQUEE_WINDOW_CHARS then var_set t s2
            else
              (let s3 = var_set (py_slice t 0 MARQUEE_WINDOW_CHARS) s2;
                   s4 = s3\<lparr> marquee_run := t @ MARQUEE_GAP @ t, marquee_i := 0 \<rparr>
               in case after MARQUEE_START_PAUSE_MS s4 of
                    (j, s5) \<Rightarrow> s5\<lparr> marquee_pause_job := Some j \<rparr>)))"

definition tick_marquee :: "'img app \<Rightarrow> 'img app" where
  "tick_marquee s =
     (if stop s \<or> marquee_run s = [] then s
      else
        (let n = int (length (marquee_run s));
             i = marquee_i s mod n;
             s1 = var_set (ljust (py_slice (marquee_run s) i (i + MARQUEE_WINDOW_CHARS))
                                 MARQUEE_WINDOW_CHARS) s;
             s2 = s1\<lparr> marquee_i := marquee_i s + 1 \<rparr>
         in case after MARQUEE_DELAY_MS s2 of
              (j, s3) \<Rightarrow> s3\<lparr> marquee_job := Some j \<rparr>))"

text \<open>
  \<^verbatim>\<open>_set_art\<close>. Decoding and resizing are done by the imaging library; \<open>decode\<close> stands
  for lines 268 to 270 and gives \<open>None\<close> where one of them raises. The result is a sum
  so that an exception leaving the function would be the value \<open>Inl\<close>.
\<close>

definition set_art_try :: "(bytes \<Rightarrow> int \<Rightarrow> 'img option) \<Rightarrow> bytes \<Rightarrow> 'img app \<Rightarrow> error + 'img app" where
  "set_art_try decode img_bytes s =
     (case decode img_bytes ART_SIZE of
        None \<Rightarrow> Inl Exception
      | Some img \<Rightarrow> Inr (s\<lparr> photo := Some img, art_label_image := Some img \<rparr>))"

definition set_art ::
  "(bytes \<Rightarrow> int \<Rightarrow> 'img option) \<Rightarrow> bytes option \<Rightarrow> 'img app \<Rightarrow> error + 'img app" where
  "set_art decode img_bytes s =
     (case img_bytes of
        None \<Rightarrow> Inr (s\<lparr> art_label_image := None, photo := None \<rparr>)
      | Some b \<Rightarrow>
          if b = [] then Inr (s\<lparr> art_label_image := None, photo := None \<rparr>)
          else
            (case set_art_try decode b s of
               Inr s' \<Rightarrow> Inr s'
             | Inl e \<Rightarrow> Inr (s\<lparr> art_label_image := None, photo := None \<rparr>)))"

text \<open>\<^verbatim>\<open>destroy\<close>, up to the calls that stop the worker and close the window.\<close>

definition destroy :: "'img app \<Rightarrow> 'img app" where
  "destroy s =
     (let s1 = s\<lparr> stop := True \<rparr>;
          s2 = (case marquee_job s1 of None \<Rightarrow> s1 | Some j \<Rightarrow> after_cancel j s1)
      in case marquee_pause_job s2 of None \<Rightarrow> s2 | Some j \<Rightarrow> after_cancel j s2)"

section \<open>The main loop of Tk\<close>

text \<open>
  A pending timer fires: Tk removes it and runs its callback. A timer that is not
  pending cannot fire.
\<close>

definition fire :: "nat \<Rightarrow> 'img app \<Rightarrow> 'img app" where
  "fire i s =
     (if i \<in> fst ` set (timers s)
      then tick_marquee (s\<lparr> timers := filter (\<lambda>e. fst e \<noteq> i) (timers s) \<rparr>)
      else s)"

text \<open>The timer armed first fires, when there is one.\<close>

definition fire_next :: "'img app \<Rightarrow> 'img app" where
  "fire_next s = (case timers s of [] \<Rightarrow> s | e # _ \<Rightarrow> fire (fst e) s)"

text \<open>
  The calls scheduled with \<^verbatim>\<open>after(0, ...)\<close> wait in Tk's queue in the order they were
  scheduled; the main loop runs each of them once, in that order.
\<close>

definition after0 :: "ui_call list \<Rightarrow> ui_call list \<Rightarrow> ui_call list" where
  "after0 calls queue = queue @ calls"

definition run_call :: "(bytes \<Rightarrow> int \<Rightarrow> 'img option) \<Rightarrow> ui_call \<Rightarrow> 'img app \<Rightarrow> 'img app" where
  "run_call decode c s =
     (case c of
        Start_marquee line \<Rightarrow> start_marquee line s
      | Set_art img_bytes \<Rightarrow> (case set_art decode img_bytes s of Inr s' \<Rightarrow> s' | Inl e \<Rightarrow> s))"

definition drain :: "(bytes \<Rightarrow> int \<Rightarrow> 'img option) \<Rightarrow> ui_call list \<Rightarrow> 'img app \<Rightarrow> 'img app" where
  "drain decode queue s = fold (run_call decode) queue s"

text \<open>The worker's passes with the queue they fill: nothing runs the queue meanwhile.\<close>

fun poll_writes :: "(pystr \<times> pystr) option \<Rightarrow> provider list \<Rightarrow> ui_call list \<Rightarrow> ui_call list" where
  "poll_writes prev [] queue = queue"
| "poll_writes prev (p # ps) queue =
     (case update_iter prev p of (prev', calls) \<Rightarrow> poll_writes prev' ps (after0 calls queue))"

text \<open>What happens in the window: a scheduled call runs, a timer fires, the window closes.\<close>

datatype event = Call ui_call | Fire nat | Destroy

definition step :: "(bytes \<Rightarrow> int \<Rightarrow> 'img option) \<Rightarrow> event \<Rightarrow> 'img app \<Rightarrow> 'img app" where
  "step decode ev s =
     (case ev of Call c \<Rightarrow> run_call decode c s | Fire i \<Rightarrow> fire i s | Destroy \<Rightarrow> destroy s)"

definition run :: "(bytes \<Rightarrow> int \<Rightarrow> 'img option) \<Rightarrow> event list \<Rightarrow> 'img app \<Rightarrow> 'img app" where
  "run decode evs s = fold (step decode) evs s"

text \<open>
  There is at most one pending timer, the pending timers are among the two the marquee
  remembers, and their identifiers have been handed out already.
\<close>

definition marquee_inv :: "'img app \<Rightarrow> bool" where
  "marquee_inv s \<longleftrightarrow>
     length (timers s) \<le> 1 \<and>
     fst ` set (timers s) \<subseteq> set_option (marquee_job s) \<union> set_option (marquee_pause_job s) \<and>
     (\<forall>e \<in> set (timers s). fst e < next_id s)"

text \<open>
  The window of the specification: \<open>MARQUEE_WINDOW_CHARS\<close> characters of the buffer from
  offset \<open>k mod length buf\<close>, padded with spaces on the right where the buffer ends.
\<close>

definition window_at :: "pystr \<Rightarrow> nat \<Rightarrow> pystr" where
  "window_at buf k = ljust (take 36 (drop (k mod length buf) buf)) MARQUEE_WINDOW_CHARS"

section \<open>Strings\<close>

lemma length_strip_le: "length (strip xs) \<le> length xs"
proof -
  have "length (strip xs) \<le> length (dropWhile isspace xs)"
    unfolding strip_def by (simp add: length_dropWhile_le order_trans [OF length_dropWhile_le])
  also have "\<dots> \<le> length xs" by (rule length_dropWhile_le)
  finally show ?thesis .
qed

lemma strip_Nil_iff: "strip xs = [] \<longleftrightarrow> list_all isspace xs"
proof
  assume "strip xs = []"
  then have all: "\<forall>x\<in>set (dropWhile isspace xs). isspace x"
    by (simp add: strip_def)
  have "dropWhile isspace xs = []"
  proof (rule ccontr)
    assume ne: "dropWhile isspace xs \<noteq> []"
    then have "\<not> isspace (hd (dropWhile isspace xs))" by (rule hd_dropWhile)
    moreover have "hd (dropWhile isspace xs) \<in> set (dropWhile isspace xs)" using ne by simp
    ultimately show False using all by blast
  qed
  then show "list_all isspace xs" by (simp add: list_all_iff)
next
  assume "list_all isspace xs"
  then have "dropWhile isspace xs = []" by (simp add: list_all_iff)
  then show "strip xs = []" by (simp add: strip_def del: dropWhile_eq_Nil_conv)
qed

section \<open>Normalization of one poll\<close>

text \<open>
  Claim C8. When there is no session the result is the title "Nothing playing" with an
  empty artist and no artwork. When a session reports a title and an artist that are
  both missing, empty or made of whitespace only, the result has the title
  "Playing (no metadata)" (and the empty artist).
\<close>

theorem no_metadata_and_no_session:
  "get_now_playing_and_art No_session = Inr (asc ''Nothing playing'', [], None) \<and>
   (list_all isspace (or_empty (title props)) \<and> list_all isspace (or_empty (artist props)) \<longrightarrow>
      (\<exists>img_bytes. get_now_playing_and_art (Session props) =
          Inr (asc ''Playing (no metadata)'', [], img_bytes)))"
  by (simp add: get_now_playing_and_art_def Let_def strip_Nil_iff)

theorem no_metadata_and_no_session_witness:
  "list_all isspace (or_empty (title \<lparr> title = Some [32, 9], artist = None, thumbnail = None \<rparr>)) \<and>
   list_all isspace (or_empty (artist \<lparr> title = Some [32, 9], artist = None, thumbnail = None \<rparr>)) \<and>
   get_now_playing_and_art (Session \<lparr> title = Some [32, 9], artist = None, thumbnail = None \<rparr>) =
     Inr (asc ''Playing (no metadata)'', [], None)"
  using no_metadata_and_no_session [of "\<lparr> title = Some [32, 9], artist = None, thumbnail = None \<rparr>"]
  by (simp add: or_empty_def isspace_def get_now_playing_and_art_def strip_def)

section \<open>Change detection in the update loop\<close>

lemma update_iter_ok:
  "get_now_playing_and_art p = Inr (t, a, b) \<Longrightarrow>
   update_iter prev p =
     (if prev \<noteq> Some (t, a) then (Some (t, a), [Start_marquee (display_line t), Set_art b])
      else (prev, []))"
  by (auto simp: update_iter_def)

lemma update_iter_fail:
  "get_now_playing_and_art p = Inl e \<Longrightarrow>
   update_iter prev p = (prev, [Start_marquee error_line, Set_art None])"
  by (simp add: update_iter_def)

lemma length_update_loop: "length (update_loop prev ps) = length ps"
  by (induction ps arbitrary: prev) (auto split: prod.splits)

lemma update_loop_ok_nth:
  "map get_now_playing_and_art ps = map Inr rs \<Longrightarrow> k < length ps \<Longrightarrow>
   update_loop prev ps ! k =
     (if (if k = 0 then prev \<noteq> Some (track (rs ! 0)) else track (rs ! k) \<noteq> track (rs ! (k - 1)))
      then [Start_marquee (display_line (fst (rs ! k))), Set_art (snd (snd (rs ! k)))] else [])"
proof (induction ps arbitrary: prev rs k)
  case Nil
  then show ?case by simp
next
  case (Cons p ps)
  then obtain r rs' where rs: "rs = r # rs'" and r: "get_now_playing_and_art p = Inr r"
    and rest: "map get_now_playing_and_art ps = map Inr rs'"
    by (cases rs) auto
  obtain t a b where rt: "r = (t, a, b)" by (cases r) auto
  have it: "update_iter prev p =
      (if prev \<noteq> Some (t, a) then (Some (t, a), [Start_marquee (display_line t), Set_art b])
       else (prev, []))"
    using r rt by (simp add: update_iter_ok)
  show ?case
  proof (cases k)
    case 0
    then show ?thesis using it rs rt by (simp add: track_def)
  next
    case (Suc k')
    then have k': "k' < length ps" using Cons.prems by simp
    have fst_it: "fst (update_iter prev p) = Some (t, a)" using it by simp
    have "update_loop prev (p # ps) ! k = update_loop (Some (t, a)) ps ! k'"
      using Suc fst_it by (cases "update_iter prev p") auto
    also have "\<dots> =
      (if (if k' = 0 then Some (t, a) \<noteq> Some (track (rs' ! 0))
           else track (rs' ! k') \<noteq> track (rs' ! (k' - 1)))
       then [Start_marquee (display_line (fst (rs' ! k'))), Set_art (snd (snd (rs' ! k')))]
       else [])"
      by (rule Cons.IH [OF rest k'])
    finally show ?thesis using Suc rs rt by (cases k') (auto simp: track_def)
  qed
qed

text \<open>
  Claim C1. Let every poll of a run succeed, with results \<open>rs\<close>. The pass number \<open>k\<close> of
  the loop, started with \<^verbatim>\<open>last = None\<close>, schedules the display line of its result (and
  the artwork) exactly when it is the first pass or its pair (title, artist) differs
  from the pair of the pass before; otherwise it schedules nothing.
\<close>

theorem update_loop_emits_iff_pair_changed:
  assumes "map get_now_playing_and_art ps = map Inr rs" and "k < length ps"
  shows "update_loop None ps ! k =
     (if k = 0 \<or> track (rs ! k) \<noteq> track (rs ! (k - 1))
      then [Start_marquee (display_line (fst (rs ! k))), Set_art (snd (snd (rs ! k)))]
      else [])"
  using update_loop_ok_nth [OF assms, of None] by (cases k) auto

theorem update_loop_emits_iff_pair_changed_witness:
  "map get_now_playing_and_art
     [Session \<lparr> title = Some [97], artist = Some [120], thumbnail = None \<rparr>,
      Session \<lparr> title = Some [97], artist = Some [120], thumbnail = None \<rparr>,
      Session \<lparr> title = Some [98], artist = Some [120], thumbnail = None \<rparr>]
     = map Inr [([97], [120], None), ([97], [120], None), ([98], [120], None)] \<and>
   (1::nat) < length [Session \<lparr> title = Some [97], artist = Some [120], thumbnail = None \<rparr>,
      Session \<lparr> title = Some [97], artist = Some [120], thumbnail = None \<rparr>,
      Session \<lparr> title = Some [98], artist = Some [120], thumbnail = None \<rparr>] \<and>
   update_loop None
     [Session \<lparr> title = Some [97], artist = Some [120], thumbnail = None \<rparr>,
      Session \<lparr> title = Some [97], artist = Some [120], thumbnail = None \<rparr>,
      Session \<lparr> title = Some [98], artist = Some [120], thumbnail = None \<rparr>] ! 1 = []"
proof -
  have h: "map get_now_playing_and_art
     [Session \<lparr> title = Some [97], artist = Some [120], thumbnail = None \<rparr>,
      Session \<lparr> title = Some [97], artist = Some [120], thumbnail = None \<rparr>,
      Session \<lparr> title = Some [98], artist = Some [120], thumbnail = None \<rparr>]
     = map Inr [([97], [120], None), ([97], [120], None), ([98], [120], None)]"
    by (simp add: get_now_playing_and_art_def or_empty_def strip_def isspace_def)
  show ?thesis
    using h update_loop_emits_iff_pair_changed [OF h, of 1] by (simp add: track_def)
qed

lemma update_loop_nth:
  "k < length ps \<Longrightarrow>
   update_loop prev ps ! k = snd (update_iter (update_last prev (take k ps)) (ps ! k))"
proof (induction ps arbitrary: prev k)
  case Nil
  then show ?case by simp
next
  case (Cons p ps)
  show ?case
  proof (cases k)
    case 0
    then show ?thesis by (cases "update_iter prev p") simp
  next
    case (Suc k')
    then have "k' < length ps" using Cons.prems by simp
    from Cons.IH [OF this, of "fst (update_iter prev p)"] Suc
    show ?thesis by (cases "update_iter prev p") simp
  qed
qed

lemma update_last_snoc:
  "update_last prev (ps @ [p]) = fst (update_iter (update_last prev ps) p)"
  by (induction ps arbitrary: prev) simp_all

lemma update_last_take_Suc:
  "k < length ps \<Longrightarrow>
   update_last prev (take (Suc k) ps) = fst (update_iter (update_last prev (take k ps)) (ps ! k))"
  by (simp add: take_Suc_conv_app_nth update_last_snoc)

lemma fst_update_iter_ok:
  "get_now_playing_and_art p = Inr r \<Longrightarrow> fst (update_iter prev p) = Some (track r)"
  by (cases r) (auto simp: update_iter_ok track_def)

text \<open>
  Claim C3. The claim says that a failure stores an error sentinel, so that the first
  successful poll after it always writes its line. The handler of line 290 leaves
  \<^verbatim>\<open>last\<close> as it is: with the same track before and after one failing poll, the passes
  write the track's line, the error line, and then nothing, and the window keeps the
  error line while the track plays.
\<close>

theorem recovery_to_same_track_writes_nothing:
  "update_loop None
     [Session \<lparr> title = Some [97], artist = Some [120], thumbnail = None \<rparr>,
      Request_raises,
      Session \<lparr> title = Some [97], artist = Some [120], thumbnail = None \<rparr>]
   = [[Start_marquee (glyph @ [97]), Set_art None],
      [Start_marquee error_line, Set_art None],
      []] \<and>
   update_last None
     [Session \<lparr> title = Some [97], artist = Some [120], thumbnail = None \<rparr>, Request_raises]
   = Some ([97], [120])"
  by (simp add: update_iter_def get_now_playing_and_art_def or_empty_def strip_def isspace_def
      display_line_def)

text \<open>
  Claim C7, as stated: during a sustained failure nothing is written after the first
  error line. The second of two failing passes writes the error line again.
\<close>

theorem sustained_failure_counterexample:
  "update_loop None [Request_raises, Request_raises] ! 1 = [Start_marquee error_line, Set_art None]"
  by (simp add: update_iter_def get_now_playing_and_art_def)

text \<open>
  Claim C7, amended. Every failing pass writes the error line with no artwork, so a
  failure that lasts \<open>n\<close> passes writes it \<open>n\<close> times. A successful pass writes only when
  its pair differs from the stored one, and what it writes is its own line and artwork.
  The second of two consecutive successful passes with the same pair writes nothing.
\<close>

theorem poller_writes_on_change_and_on_every_failure:
  assumes "k < length ps"
  shows "(\<forall>e. get_now_playing_and_art (ps ! k) = Inl e \<longrightarrow>
            update_loop None ps ! k = [Start_marquee error_line, Set_art None]) \<and>
         (\<forall>r. get_now_playing_and_art (ps ! k) = Inr r \<and> update_loop None ps ! k \<noteq> [] \<longrightarrow>
            update_last None (take k ps) \<noteq> Some (track r) \<and>
            update_loop None ps ! k = [Start_marquee (display_line (fst r)), Set_art (snd (snd r))]) \<and>
         (\<forall>r r'. 0 < k \<and> get_now_playing_and_art (ps ! (k - 1)) = Inr r' \<and>
            get_now_playing_and_art (ps ! k) = Inr r \<and> track r = track r' \<longrightarrow>
            update_loop None ps ! k = [])"
proof (intro conjI allI impI)
  fix e assume "get_now_playing_and_art (ps ! k) = Inl e"
  then show "update_loop None ps ! k = [Start_marquee error_line, Set_art None]"
    using assms by (simp add: update_loop_nth update_iter_fail)
next
  fix r assume a: "get_now_playing_and_art (ps ! k) = Inr r \<and> update_loop None ps ! k \<noteq> []"
  obtain t ar b where r: "r = (t, ar, b)" by (cases r) auto
  from a r assms show "update_last None (take k ps) \<noteq> Some (track r)"
    by (auto simp: update_loop_nth update_iter_ok track_def split: if_splits)
  from a r assms show "update_loop None ps ! k = [Start_marquee (display_line (fst r)), Set_art (snd (snd r))]"
    by (auto simp: update_loop_nth update_iter_ok track_def split: if_splits)
next
  fix r r'
  assume a: "0 < k \<and> get_now_playing_and_art (ps ! (k - 1)) = Inr r' \<and>
            get_now_playing_and_art (ps ! k) = Inr r \<and> track r = track r'"
  then obtain j where j: "k = Suc j" by (cases k) auto
  then have jl: "j < length ps" using assms by simp
  have "update_last None (take k ps) = Some (track r')"
    using a j jl by (simp add: update_last_take_Suc fst_update_iter_ok)
  moreover obtain t ar b where r: "r = (t, ar, b)" by (cases r) auto
  ultimately show "update_loop None ps ! k = []"
    using a assms by (simp add: update_loop_nth update_iter_ok track_def)
qed

theorem poller_writes_on_change_and_on_every_failure_witness:
  "(3::nat) < length [Session \<lparr> title = Some [97], artist = None, thumbnail = None \<rparr>,
        Session \<lparr> title = Some [97], artist = None, thumbnail = None \<rparr>, Request_raises, Props_raises] \<and>
   get_now_playing_and_art ([Session \<lparr> title = Some [97], artist = None, thumbnail = None \<rparr>,
        Session \<lparr> title = Some [97], artist = None, thumbnail = None \<rparr>, Request_raises, Props_raises] ! 3)
     = Inl Exception \<and>
   update_loop None [Session \<lparr> title = Some [97], artist = None, thumbnail = None \<rparr>,
        Session \<lparr> title = Some [97], artist = None, thumbnail = None \<rparr>, Request_raises, Props_raises] ! 3
     = [Start_marquee error_line, Set_art None] \<and>
   get_now_playing_and_art ([Session \<lparr> title = Some [97], artist = None, thumbnail = None \<rparr>,
        Session \<lparr> title = Some [97], artist = None, thumbnail = None \<rparr>, Request_raises, Props_raises] ! 0)
     = Inr ([97], [], None) \<and>
   update_loop None [Session \<lparr> title = Some [97], artist = None, thumbnail = None \<rparr>,
        Session \<lparr> title = Some [97], artist = None, thumbnail = None \<rparr>, Request_raises, Props_raises] ! 0
     = [Start_marquee (display_line [97]), Set_art None] \<and>
   update_loop None [Session \<lparr> title = Some [97], artist = None, thumbnail = None \<rparr>,
        Session \<lparr> title = Some [97], artist = None, thumbnail = None \<rparr>, Request_raises, Props_raises] ! 1
     = []"
proof -
  let ?a = "Session \<lparr> title = Some [97], artist = None, thumbnail = None \<rparr>"
  let ?ps = "[?a, ?a, Request_raises, Props_raises]"
  have ga: "get_now_playing_and_art ?a = Inr ([97], [], None)"
    by (simp add: get_now_playing_and_art_def or_empty_def strip_def isspace_def)
  have gf: "get_now_playing_and_art Props_raises = Inl Exception"
    by (simp add: get_now_playing_and_art_def)
  have ne: "update_loop None ?ps ! 0 \<noteq> []"
    by (simp add: update_iter_def ga)
  have l3: "(3::nat) < length ?ps" and l1: "(1::nat) < length ?ps" and l0: "(0::nat) < length ?ps"
    by simp_all
  from poller_writes_on_change_and_on_every_failure [OF l3] gf
  have c3: "update_loop None ?ps ! 3 = [Start_marquee error_line, Set_art None]"
    by simp
  from poller_writes_on_change_and_on_every_failure [OF l0] ga ne
  have c0: "update_loop None ?ps ! 0 = [Start_marquee (display_line [97]), Set_art None]"
    by simp
  from poller_writes_on_change_and_on_every_failure [OF l1] ga
  have c1: "update_loop None ?ps ! 1 = []"
    by simp
  show ?thesis using c3 c0 c1 ga gf by simp
qed

section \<open>Artwork failures\<close>

text \<open>
  Claim C9. When opening or reading the thumbnail raises, the poll still succeeds with
  the title and artist it would have without a thumbnail and with no artwork, and a
  pass whose pair changed schedules the text line with no artwork. When decoding raises
  in \<^verbatim>\<open>_set_art\<close>, the image is cleared; \<^verbatim>\<open>_set_art\<close> returns normally on every input.
\<close>

theorem artwork_failures_stay_local:
  "(thumbnail props = Some Open_raises \<or> thumbnail props = Some (Stream sz Read_raises) \<longrightarrow>
      (\<exists>t a. get_now_playing_and_art (Session props) = Inr (t, a, None) \<and>
             get_now_playing_and_art (Session (props\<lparr> thumbnail := None \<rparr>)) = Inr (t, a, None) \<and>
             (prev \<noteq> Some (t, a) \<longrightarrow>
                update_iter prev (Session props) =
                  (Some (t, a), [Start_marquee (display_line t), Set_art None])))) \<and>
   (b \<noteq> [] \<and> decode b ART_SIZE = None \<longrightarrow>
      set_art_try decode b s = Inl Exception \<and>
      set_art decode (Some b) s = Inr (s\<lparr> art_label_image := None, photo := None \<rparr>)) \<and>
   (\<exists>s'. set_art decode img_bytes s = Inr s')"
  by (auto simp: get_now_playing_and_art_def Let_def read_thumbnail_def update_iter_def
      set_art_def set_art_try_def split: option.splits sum.splits)

theorem artwork_failures_stay_local_witness:
  "thumbnail \<lparr> title = Some [97], artist = None, thumbnail = Some Open_raises \<rparr> = Some Open_raises \<and>
   None \<noteq> Some ([97], []::pystr) \<and>
   update_iter None (Session \<lparr> title = Some [97], artist = None, thumbnail = Some Open_raises \<rparr>) =
     (Some ([97], []), [Start_marquee (display_line [97]), Set_art None]) \<and>
   [1::8 word] \<noteq> [] \<and> (\<lambda>b sz. None :: unit option) [1] ART_SIZE = None \<and>
   set_art (\<lambda>b sz. None) (Some [1]) (init :: unit app) =
     Inr (init\<lparr> art_label_image := None, photo := None \<rparr>)"
proof -
  have g: "get_now_playing_and_art
      (Session \<lparr> title = Some [97], artist = None, thumbnail = Some Open_raises \<rparr>) = Inr ([97], [], None)"
    by (simp add: get_now_playing_and_art_def or_empty_def strip_def isspace_def read_thumbnail_def)
  show ?thesis
    using g artwork_failures_stay_local
      [of "\<lparr> title = Some [97], artist = None, thumbnail = Some Open_raises \<rparr>" 0 None
          "[1]" "\<lambda>b sz. None" "init :: unit app" None]
    by simp
qed

section \<open>The marquee: one session\<close>

lemma py_slice_window:
  "0 \<le> i \<Longrightarrow> 0 \<le> w \<Longrightarrow> py_slice xs i (i + w) = take (nat w) (drop (nat i) xs)"
proof -
  assume i: "0 \<le> i" and w: "0 \<le> w"
  let ?n = "int (length xs)"
  show ?thesis
  proof (cases "i \<le> ?n")
    case True
    have "nat (min (i + w) ?n - i) = min (nat w) (length (drop (nat i) xs))"
      using i w True by (simp add: min_def) linarith
    then have "py_slice xs i (i + w) = take (min (nat w) (length (drop (nat i) xs))) (drop (nat i) xs)"
      using i w True by (simp add: py_slice_def Let_def min_absorb1)
    also have "\<dots> = take (nat w) (drop (nat i) xs)"
      by (metis take_take take_all order_refl)
    finally show ?thesis .
  next
    case False
    then show ?thesis using i w by (simp add: py_slice_def Let_def min_def)
  qed
qed

lemma cancel_jobs_inv:
  assumes "marquee_inv s"
  shows "cancel_jobs s = s\<lparr> marquee_job := None, marquee_pause_job := None, timers := [] \<rparr>"
proof (cases "timers s")
  case Nil
  then show ?thesis
    by (auto simp: cancel_jobs_def after_cancel_def split: option.splits)
next
  case (Cons e es)
  then have es: "es = []" using assms by (simp add: marquee_inv_def)
  have "fst e \<in> set_option (marquee_job s) \<union> set_option (marquee_pause_job s)"
    using assms Cons by (simp add: marquee_inv_def)
  then show ?thesis using Cons es
    by (auto simp: cancel_jobs_def after_cancel_def split: option.splits)
qed

lemma start_marquee_static:
  assumes "marquee_inv s" and "int (length (strip text)) \<le> MARQUEE_WINDOW_CHARS"
  shows "start_marquee text s =
     s\<lparr> marquee_job := None, marquee_pause_job := None, timers := [],
        now_playing_var := strip text, shown := shown s @ [strip text] \<rparr>"
  using assms(2)
  by (simp add: start_marquee_def cancel_jobs_inv [OF assms(1)] MARQUEE_ENABLED_def var_set_def
      Let_def)

lemma start_marquee_scroll:
  assumes "marquee_inv s" and "MARQUEE_WINDOW_CHARS < int (length (strip text))"
  shows "start_marquee text s =
     s\<lparr> marquee_job := None, marquee_pause_job := Some (next_id s),
        timers := [(next_id s, MARQUEE_START_PAUSE_MS)],
        now_playing_var := take 36 (strip text),
        shown := shown s @ [take 36 (strip text)],
        marquee_run := strip text @ MARQUEE_GAP @ strip text, marquee_i := 0,
        next_id := Suc (next_id s) \<rparr>"
proof -
  have sl: "py_slice (strip text) 0 MARQUEE_WINDOW_CHARS = take 36 (strip text)"
    using py_slice_window [of 0 36 "strip text"] by (simp add: MARQUEE_WINDOW_CHARS_def)
  show ?thesis using assms(2)
    by (simp add: start_marquee_def cancel_jobs_inv [OF assms(1)] MARQUEE_ENABLED_def var_set_def
        after_def sl Let_def)
qed


lemma tick_marquee_running:
  assumes "\<not> stop s" and "marquee_run s \<noteq> []" and "0 \<le> marquee_i s"
  shows "tick_marquee s =
     s\<lparr> now_playing_var := window_at (marquee_run s) (nat (marquee_i s)),
        shown := shown s @ [window_at (marquee_run s) (nat (marquee_i s))],
        marquee_i := marquee_i s + 1,
        timers := timers s @ [(next_id s, MARQUEE_DELAY_MS)],
        next_id := Suc (next_id s),
        marquee_job := Some (next_id s) \<rparr>"
proof -
  let ?n = "int (length (marquee_run s))"
  let ?i = "marquee_i s mod ?n"
  have n: "0 < ?n" using assms(2) by simp
  have i0: "0 \<le> ?i" using n by simp
  have "nat ?i = nat (marquee_i s) mod length (marquee_run s)"
    using assms(3) n by (simp add: nat_mod_distrib)
  then have "py_slice (marquee_run s) ?i (?i + MARQUEE_WINDOW_CHARS) =
      take 36 (drop (nat (marquee_i s) mod length (marquee_run s)) (marquee_run s))"
    using py_slice_window [OF i0, of 36 "marquee_run s"] by (simp add: MARQUEE_WINDOW_CHARS_def)
  then show ?thesis using assms(1,2)
    by (simp add: tick_marquee_def Let_def var_set_def after_def window_at_def)
qed

lemma fire_next_single:
  "timers s = [e] \<Longrightarrow> fire_next s = tick_marquee (s\<lparr> timers := [] \<rparr>)"
  by (simp add: fire_next_def fire_def)

lemma fire_next_none: "timers s = [] \<Longrightarrow> fire_next s = s"
  by (simp add: fire_next_def)

lemma fire_not_pending: "i \<notin> fst ` set (timers s) \<Longrightarrow> fire i s = s"
  by (simp add: fire_def)

lemma scroll_state:
  assumes "marquee_inv s" and "\<not> stop s" and "MARQUEE_WINDOW_CHARS < int (length (strip text))"
  shows "(fire_next ^^ Suc k) (start_marquee text s) =
     s\<lparr> marquee_job := Some (next_id s + Suc k), marquee_pause_job := Some (next_id s),
        timers := [(next_id s + Suc k, MARQUEE_DELAY_MS)],
        now_playing_var := window_at (strip text @ MARQUEE_GAP @ strip text) k,
        shown := shown s @ take 36 (strip text) #
                 map (window_at (strip text @ MARQUEE_GAP @ strip text)) [0..<Suc k],
        marquee_run := strip text @ MARQUEE_GAP @ strip text, marquee_i := int (Suc k),
        next_id := next_id s + k + 2 \<rparr>"
proof (induction k)
  case 0
  have ne: "strip text @ MARQUEE_GAP @ strip text \<noteq> []" by (simp add: MARQUEE_GAP_def)
  show ?case
    using assms(2) ne
    by (simp add: start_marquee_scroll [OF assms(1,3)] fire_next_single tick_marquee_running)
next
  case (Suc k)
  have ne: "strip text @ MARQUEE_GAP @ strip text \<noteq> []" by (simp add: MARQUEE_GAP_def)
  have "(fire_next ^^ Suc (Suc k)) (start_marquee text s) =
        fire_next ((fire_next ^^ Suc k) (start_marquee text s))" by simp
  also have "\<dots> = s\<lparr> marquee_job := Some (next_id s + Suc (Suc k)), marquee_pause_job := Some (next_id s),
        timers := [(next_id s + Suc (Suc k), MARQUEE_DELAY_MS)],
        now_playing_var := window_at (strip text @ MARQUEE_GAP @ strip text) (Suc k),
        shown := shown s @ take 36 (strip text) #
                 map (window_at (strip text @ MARQUEE_GAP @ strip text)) [0..<Suc (Suc k)],
        marquee_run := strip text @ MARQUEE_GAP @ strip text, marquee_i := int (Suc (Suc k)),
        next_id := next_id s + Suc k + 2 \<rparr>"
    unfolding Suc.IH using assms(2) ne
    by (simp add: fire_next_single tick_marquee_running nat_add_distrib)
  finally show ?case .
qed

section \<open>Stripping is idempotent\<close>

lemma dropWhile_id: "xs = [] \<or> \<not> P (hd xs) \<Longrightarrow> dropWhile P xs = xs"
  by (cases xs) auto

lemma rstrip_prefix: "\<exists>zs. d = rev (dropWhile P (rev d)) @ zs"
proof -
  have "rev (dropWhile P (rev d)) @ rev (takeWhile P (rev d)) =
        rev (takeWhile P (rev d) @ dropWhile P (rev d))"
    by (simp only: rev_append)
  also have "\<dots> = d" by simp
  finally show ?thesis by metis
qed

lemma strip_starts: "strip xs = [] \<or> \<not> isspace (hd (strip xs))"
proof (cases "strip xs = []")
  case True
  then show ?thesis by simp
next
  case False
  let ?d = "dropWhile isspace xs"
  obtain zs where d: "?d = strip xs @ zs" using rstrip_prefix [of ?d isspace] by (auto simp: strip_def)
  then have "hd ?d = hd (strip xs)" using False by (metis hd_append2)
  moreover have "?d \<noteq> []" using d False by auto
  ultimately show ?thesis using hd_dropWhile [of isspace xs] by simp
qed

lemma strip_ends: "strip xs = [] \<or> \<not> isspace (last (strip xs))"
proof (cases "strip xs = []")
  case True
  then show ?thesis by simp
next
  case False
  let ?r = "dropWhile isspace (rev (dropWhile isspace xs))"
  have ne: "?r \<noteq> []" using False by (simp add: strip_def del: dropWhile_eq_Nil_conv)
  then have "\<not> isspace (hd ?r)" by (rule hd_dropWhile)
  moreover have "last (strip xs) = hd ?r" using ne by (simp add: strip_def last_rev del: dropWhile_eq_Nil_conv)
  ultimately show ?thesis by simp
qed

lemma strip_id:
  assumes "xs = [] \<or> (\<not> isspace (hd xs) \<and> \<not> isspace (last xs))"
  shows "strip xs = xs"
proof (cases "xs = []")
  case True
  then show ?thesis by (simp add: strip_def)
next
  case False
  then have h: "\<not> isspace (hd xs)" and l: "\<not> isspace (last xs)" using assms by auto
  have "dropWhile isspace xs = xs" using h by (simp add: dropWhile_id)
  moreover have "dropWhile isspace (rev xs) = rev xs"
    using l False by (intro dropWhile_id) (simp add: hd_rev)
  ultimately show ?thesis by (simp add: strip_def)
qed

lemma strip_idem: "strip (strip xs) = strip xs"
  using strip_starts [of xs] strip_ends [of xs] by (intro strip_id) auto

section \<open>The invariant of the timers\<close>

lemma marquee_inv_init: "marquee_inv init"
  by (simp add: marquee_inv_def init_def)

lemma marquee_inv_start:
  assumes "marquee_inv s"
  shows "marquee_inv (start_marquee text s)"
proof (cases "int (length (strip text)) \<le> MARQUEE_WINDOW_CHARS")
  case True
  then show ?thesis by (simp add: start_marquee_static [OF assms] marquee_inv_def)
next
  case False
  then have "MARQUEE_WINDOW_CHARS < int (length (strip text))" by simp
  then show ?thesis by (simp add: start_marquee_scroll [OF assms] marquee_inv_def)
qed

lemma marquee_inv_tick:
  assumes "timers s = []"
  shows "marquee_inv (tick_marquee s)"
  using assms
  by (auto simp: tick_marquee_def Let_def var_set_def after_def marquee_inv_def)

lemma marquee_inv_fire:
  assumes "marquee_inv s"
  shows "marquee_inv (fire i s)"
proof (cases "i \<in> fst ` set (timers s)")
  case False
  then show ?thesis using assms by (simp add: fire_def)
next
  case True
  then obtain e where e: "timers s = [e]" and i: "fst e = i"
    using assms by (cases "timers s") (auto simp: marquee_inv_def)
  have "fire i s = tick_marquee (s\<lparr> timers := [] \<rparr>)"
    using e i by (simp add: fire_def)
  then show ?thesis by (simp add: marquee_inv_tick)
qed

lemma marquee_inv_set_art:
  assumes "marquee_inv s"
  shows "marquee_inv (run_call decode (Set_art b) s)"
  using assms
  by (auto simp: run_call_def set_art_def set_art_try_def marquee_inv_def
      split: option.splits sum.splits)

lemma destroy_inv:
  assumes "marquee_inv s"
  shows "timers (destroy s) = []"
proof (cases "timers s")
  case Nil
  then show ?thesis by (auto simp: destroy_def after_cancel_def Let_def split: option.splits)
next
  case (Cons e es)
  then have es: "es = []" using assms by (simp add: marquee_inv_def)
  have "fst e \<in> set_option (marquee_job s) \<union> set_option (marquee_pause_job s)"
    using assms Cons by (simp add: marquee_inv_def)
  then show ?thesis using Cons es
    by (auto simp: destroy_def after_cancel_def Let_def split: option.splits)
qed

lemma marquee_inv_destroy:
  assumes "marquee_inv s"
  shows "marquee_inv (destroy s)"
  using destroy_inv [OF assms] by (simp add: marquee_inv_def)

lemma marquee_inv_step:
  assumes "marquee_inv s"
  shows "marquee_inv (step decode ev s)"
proof (cases ev)
  case (Call c)
  then show ?thesis
    using assms marquee_inv_start [OF assms] marquee_inv_set_art [OF assms]
    by (cases c) (simp_all add: step_def run_call_def)
next
  case (Fire i)
  then show ?thesis using marquee_inv_fire [OF assms] by (simp add: step_def)
next
  case Destroy
  then show ?thesis using marquee_inv_destroy [OF assms] by (simp add: step_def)
qed

lemma marquee_inv_run: "marquee_inv s \<Longrightarrow> marquee_inv (run decode evs s)"
  unfolding run_def by (induction evs arbitrary: s) (simp_all add: marquee_inv_step)

section \<open>The lines the worker schedules\<close>

text \<open>
  Every line the update loop passes to \<^verbatim>\<open>_start_marquee\<close> begins with the note and ends
  with a character that is not whitespace, so the \<^verbatim>\<open>strip\<close> of line 233 leaves it as it is.
\<close>

lemma title_ends:
  assumes "get_now_playing_and_art p = Inr (t, a, b)"
  shows "t = [] \<or> \<not> isspace (last t)"
proof (cases p)
  case (Session props)
  then show ?thesis
    using assms strip_ends [of "or_empty (title props)"]
    by (auto simp: get_now_playing_and_art_def Let_def asc_def isspace_def split: if_splits)
qed (use assms in \<open>auto simp: get_now_playing_and_art_def asc_def isspace_def\<close>)

lemma strip_glyph_line:
  assumes "t \<noteq> []" and "\<not> isspace (last t)"
  shows "strip (glyph @ t) = glyph @ t"
  using assms by (intro strip_id) (simp add: glyph_def isspace_def)

lemma scheduled_line_is_stripped:
  assumes "Start_marquee l \<in> set (snd (update_iter prev p))"
  shows "strip l = l"
proof (cases "get_now_playing_and_art p")
  case (Inl e)
  then have l: "l = error_line" using assms by (simp add: update_iter_fail)
  have "strip (glyph @ asc ''(unable to read media session)'') =
      glyph @ asc ''(unable to read media session)''"
    by (rule strip_glyph_line) (simp_all add: asc_def isspace_def)
  then show ?thesis unfolding l error_line_def .
next
  case (Inr r)
  obtain t a b where r: "r = (t, a, b)" by (cases r) auto
  have l: "l = display_line t"
    using assms Inr r by (auto simp: update_iter_ok split: if_splits)
  show ?thesis
  proof (cases "t = []")
    case True
    have "strip (glyph @ asc ''(unknown)'') = glyph @ asc ''(unknown)''"
      by (rule strip_glyph_line) (simp_all add: asc_def isspace_def)
    then show ?thesis unfolding l display_line_def using True by simp
  next
    case False
    then have "\<not> isspace (last t)" using title_ends [of p t a b] Inr r by simp
    then have "strip (glyph @ t) = glyph @ t" using False by (intro strip_glyph_line)
    then show ?thesis unfolding l display_line_def using False by simp
  qed
qed

section \<open>Static and scrolling display\<close>

lemma fold_fire_none: "timers s = [] \<Longrightarrow> fold fire ids s = s"
  by (induction ids) (simp_all add: fire_def)

lemma length_window_at: "length (window_at buf k) = 36"
  by (simp add: window_at_def ljust_def MARQUEE_WINDOW_CHARS_def)

lemma window_at_periodic: "window_at buf (k + length buf) = window_at buf k"
  by (simp add: window_at_def)

text \<open>
  Claim C6. The source text of a session is the line after the \<^verbatim>\<open>strip\<close> of line 233
  (for the lines the worker schedules, the line itself).
  When its length is at most the window width of 36 characters, \<^verbatim>\<open>_start_marquee\<close>
  shows the whole of it and leaves no timer pending: neither job is set, no identifier
  has been handed out, and no firing of timers changes the window afterwards. The bound
  is inclusive, and the empty text gives the empty display.
\<close>

theorem short_text_is_static:
  assumes "marquee_inv s" and "int (length (strip text)) \<le> MARQUEE_WINDOW_CHARS"
  shows "now_playing_var (start_marquee text s) = strip text \<and>
         timers (start_marquee text s) = [] \<and>
         marquee_job (start_marquee text s) = None \<and>
         marquee_pause_job (start_marquee text s) = None \<and>
         next_id (start_marquee text s) = next_id s \<and>
         fold fire ids (start_marquee text s) = start_marquee text s \<and>
         fire_next (start_marquee text s) = start_marquee text s"
proof -
  have t: "timers (start_marquee text s) = []"
    by (simp add: start_marquee_static [OF assms])
  show ?thesis
    using fold_fire_none [OF t] fire_next_none [OF t]
    by (simp add: start_marquee_static [OF assms])
qed

theorem short_text_is_static_witness:
  "marquee_inv (init :: unit app) \<and>
   int (length (strip (replicate 36 97))) \<le> MARQUEE_WINDOW_CHARS \<and>
   now_playing_var (start_marquee (replicate 36 97) (init :: unit app)) = replicate 36 97 \<and>
   timers (start_marquee (replicate 36 97) (init :: unit app)) = [] \<and>
   int (length (strip [])) \<le> MARQUEE_WINDOW_CHARS \<and>
   now_playing_var (start_marquee [] (init :: unit app)) = [] \<and>
   timers (start_marquee [] (init :: unit app)) = []"
proof -
  have s36: "strip (replicate 36 97) = replicate 36 97"
    by (rule strip_id) (simp add: isspace_def)
  have s0: "strip [] = []" by (simp add: strip_def)
  have h36: "int (length (strip (replicate 36 97))) \<le> MARQUEE_WINDOW_CHARS"
    by (simp add: s36 MARQUEE_WINDOW_CHARS_def)
  have h0: "int (length (strip [])) \<le> MARQUEE_WINDOW_CHARS"
    by (simp add: s0 MARQUEE_WINDOW_CHARS_def)
  show ?thesis
    using short_text_is_static [OF marquee_inv_init h36, where 'a = unit]
      short_text_is_static [OF marquee_inv_init h0, where 'a = unit]
      h36 h0 marquee_inv_init [where 'a = unit]
    by (simp add: s36 s0)
qed

text \<open>
  Claim C5. When the source text \<open>t\<close> is longer than the window, the first display is
  the first 36 characters of \<open>t\<close> and the buffer is \<open>t\<close>, the gap, \<open>t\<close>. The start-delay
  timer fires and then \<open>k\<close> ticks elapse: the display is the 36 characters of the buffer
  from offset \<open>k mod length buf\<close>, padded with spaces on the right to 36 characters, and
  it is the same again \<open>length buf\<close> ticks later.
\<close>

theorem scrolling_window_is_periodic:
  assumes "marquee_inv s" and "\<not> stop s" and "MARQUEE_WINDOW_CHARS < int (length (strip text))"
  shows "let t = strip text; buf = t @ MARQUEE_GAP @ t; s0 = start_marquee text s in
     now_playing_var s0 = take (nat MARQUEE_WINDOW_CHARS) t \<and>
     marquee_run s0 = buf \<and>
     now_playing_var ((fire_next ^^ Suc k) s0) =
       ljust (take (nat MARQUEE_WINDOW_CHARS) (drop (k mod length buf) buf)) MARQUEE_WINDOW_CHARS \<and>
     int (length (now_playing_var ((fire_next ^^ Suc k) s0))) = MARQUEE_WINDOW_CHARS \<and>
     now_playing_var ((fire_next ^^ Suc (k + length buf)) s0) =
       now_playing_var ((fire_next ^^ Suc k) s0)"
proof -
  let ?buf = "strip text @ MARQUEE_GAP @ strip text"
  have a: "now_playing_var ((fire_next ^^ Suc j) (start_marquee text s)) = window_at ?buf j" for j
    by (simp only: scroll_state [OF assms]) simp
  have w: "window_at ?buf k =
      ljust (take (nat MARQUEE_WINDOW_CHARS) (drop (k mod length ?buf) ?buf)) MARQUEE_WINDOW_CHARS"
    by (simp add: window_at_def MARQUEE_WINDOW_CHARS_def)
  have p: "window_at ?buf (k + length ?buf) = window_at ?buf k"
    by (rule window_at_periodic)
  have l: "int (length (window_at ?buf k)) = MARQUEE_WINDOW_CHARS"
    by (simp add: length_window_at MARQUEE_WINDOW_CHARS_def)
  have i: "now_playing_var (start_marquee text s) = take (nat MARQUEE_WINDOW_CHARS) (strip text)"
    "marquee_run (start_marquee text s) = ?buf"
    by (simp_all add: start_marquee_scroll [OF assms(1,3)] MARQUEE_WINDOW_CHARS_def)
  show ?thesis
    unfolding Let_def
  proof (intro conjI)
    show "now_playing_var (start_marquee text s) = take (nat MARQUEE_WINDOW_CHARS) (strip text)"
      by (rule i(1))
    show "marquee_run (start_marquee text s) = ?buf"
      by (rule i(2))
    show "now_playing_var ((fire_next ^^ Suc k) (start_marquee text s)) =
        ljust (take (nat MARQUEE_WINDOW_CHARS) (drop (k mod length ?buf) ?buf)) MARQUEE_WINDOW_CHARS"
      unfolding a by (rule w)
    show "int (length (now_playing_var ((fire_next ^^ Suc k) (start_marquee text s)))) =
        MARQUEE_WINDOW_CHARS"
      unfolding a by (rule l)
    show "now_playing_var ((fire_next ^^ Suc (k + length ?buf)) (start_marquee text s)) =
        now_playing_var ((fire_next ^^ Suc k) (start_marquee text s))"
      unfolding a by (rule p)
  qed
qed

theorem scrolling_window_is_periodic_witness:
  "marquee_inv (init :: unit app) \<and> \<not> stop (init :: unit app) \<and>
   MARQUEE_WINDOW_CHARS < int (length (strip (asc ''ABCDEFGHIJKLMNOPQRSTUVWXYZabcdefghijk''))) \<and>
   now_playing_var (start_marquee (asc ''ABCDEFGHIJKLMNOPQRSTUVWXYZabcdefghijk'') (init :: unit app)) =
     asc ''ABCDEFGHIJKLMNOPQRSTUVWXYZabcdefghij'' \<and>
   now_playing_var ((fire_next ^^ Suc 1)
       (start_marquee (asc ''ABCDEFGHIJKLMNOPQRSTUVWXYZabcdefghijk'') (init :: unit app))) =
     asc ''BCDEFGHIJKLMNOPQRSTUVWXYZabcdefghijk'' \<and>
   now_playing_var ((fire_next ^^ Suc 60)
       (start_marquee (asc ''ABCDEFGHIJKLMNOPQRSTUVWXYZabcdefghijk'') (init :: unit app))) =
     asc ''QRSTUVWXYZabcdefghijk'' @ replicate 15 32"
proof -
  let ?t = "asc ''ABCDEFGHIJKLMNOPQRSTUVWXYZabcdefghijk''"
  have st: "strip ?t = ?t"
    by (rule strip_id) (simp add: asc_def isspace_def)
  have h: "MARQUEE_WINDOW_CHARS < int (length (strip ?t))"
    by (simp add: st) (simp add: asc_def MARQUEE_WINDOW_CHARS_def)
  have ns: "\<not> stop (init :: unit app)" by (simp add: init_def)
  have d0: "ljust (take (nat MARQUEE_WINDOW_CHARS) (drop (1 mod length (?t @ MARQUEE_GAP @ ?t)) (?t @ MARQUEE_GAP @ ?t))) MARQUEE_WINDOW_CHARS
      = asc ''BCDEFGHIJKLMNOPQRSTUVWXYZabcdefghijk''"
    by (simp add: asc_def MARQUEE_GAP_def MARQUEE_WINDOW_CHARS_def ljust_def)
  have d1: "ljust (take (nat MARQUEE_WINDOW_CHARS) (drop (60 mod length (?t @ MARQUEE_GAP @ ?t)) (?t @ MARQUEE_GAP @ ?t))) MARQUEE_WINDOW_CHARS
      = asc ''QRSTUVWXYZabcdefghijk'' @ replicate 15 32"
    by (simp add: asc_def MARQUEE_GAP_def MARQUEE_WINDOW_CHARS_def ljust_def)
  have i0: "take (nat MARQUEE_WINDOW_CHARS) ?t = asc ''ABCDEFGHIJKLMNOPQRSTUVWXYZabcdefghij''"
    by (simp add: asc_def MARQUEE_WINDOW_CHARS_def)
  from scrolling_window_is_periodic [OF marquee_inv_init ns h, of 1]
  have c1: "now_playing_var (start_marquee ?t (init :: unit app)) = asc ''ABCDEFGHIJKLMNOPQRSTUVWXYZabcdefghij''"
    and c2: "now_playing_var ((fire_next ^^ Suc 1) (start_marquee ?t (init :: unit app))) =
     asc ''BCDEFGHIJKLMNOPQRSTUVWXYZabcdefghijk''"
    unfolding Let_def st d0 i0 by blast+
  from scrolling_window_is_periodic [OF marquee_inv_init ns h, of 60]
  have c3: "now_playing_var ((fire_next ^^ Suc 60) (start_marquee ?t (init :: unit app))) =
     asc ''QRSTUVWXYZabcdefghijk'' @ replicate 15 32"
    unfolding Let_def st d1 by blast
  show ?thesis
    using marquee_inv_init [where 'a = unit] ns h c1 c2 c3 by blast
qed

lemma strip_padded:
  assumes "xs \<noteq> []" and "\<not> isspace (hd xs)" and "\<not> isspace (last xs)"
    and "list_all isspace ls" and "list_all isspace rs"
  shows "strip (ls @ xs @ rs) = xs"
proof -
  have d: "dropWhile isspace xs = xs" using assms(2) by (simp add: dropWhile_id)
  have r: "dropWhile isspace (rev xs) = rev xs"
    using assms(1,3) by (intro dropWhile_id) (simp add: hd_rev)
  have "dropWhile isspace (ls @ xs @ rs) = dropWhile isspace (xs @ rs)"
    using assms(4) by (intro dropWhile_append2) (simp add: list_all_iff)
  also have "\<dots> = xs @ rs"
    using assms(1,2) by (cases xs) simp_all
  finally have "dropWhile isspace (ls @ xs @ rs) = xs @ rs" .
  moreover have "dropWhile isspace (rev rs @ rev xs) = dropWhile isspace (rev xs)"
    using assms(5) by (intro dropWhile_append2) (simp add: list_all_iff)
  ultimately show ?thesis using r by (simp add: strip_def del: dropWhile_eq_Nil_conv)
qed

text \<open>
  Claim C10. \<^verbatim>\<open>_start_marquee\<close> strips the incoming line first and uses only the stripped
  text afterwards: starting with a line is the same as starting with its stripped form.
  So when the stripped form fits the window it is shown, with no timer, also when the
  line itself is longer than the window.
\<close>

theorem marquee_uses_stripped_text:
  "start_marquee text s = start_marquee (strip text) s \<and>
   (marquee_inv s \<and> int (length (strip text)) \<le> MARQUEE_WINDOW_CHARS \<longrightarrow>
      now_playing_var (start_marquee text s) = strip text \<and>
      timers (start_marquee text s) = [] \<and>
      marquee_pause_job (start_marquee text s) = None)"
proof (intro conjI impI)
  show "start_marquee text s = start_marquee (strip text) s"
    by (simp add: start_marquee_def MARQUEE_ENABLED_def strip_idem)
next
  assume a: "marquee_inv s \<and> int (length (strip text)) \<le> MARQUEE_WINDOW_CHARS"
  then have i: "marquee_inv s" and l: "int (length (strip text)) \<le> MARQUEE_WINDOW_CHARS"
    by simp_all
  show "now_playing_var (start_marquee text s) = strip text"
    by (simp add: start_marquee_static [OF i l])
  show "timers (start_marquee text s) = []"
    by (simp add: start_marquee_static [OF i l])
  show "marquee_pause_job (start_marquee text s) = None"
    by (simp add: start_marquee_static [OF i l])
qed

theorem marquee_uses_stripped_text_witness:
  "marquee_inv (init :: unit app) \<and>
   int (length (strip (replicate 40 32 @ asc ''Song'' @ [32, 9]))) \<le> MARQUEE_WINDOW_CHARS \<and>
   MARQUEE_WINDOW_CHARS < int (length (replicate 40 32 @ asc ''Song'' @ [32, 9])) \<and>
   now_playing_var (start_marquee (replicate 40 32 @ asc ''Song'' @ [32, 9]) (init :: unit app)) =
     asc ''Song'' \<and>
   timers (start_marquee (replicate 40 32 @ asc ''Song'' @ [32, 9]) (init :: unit app)) = []"
proof -
  have st: "strip (replicate 40 32 @ asc ''Song'' @ [32, 9]) = asc ''Song''"
    by (rule strip_padded) (simp_all add: asc_def isspace_def list_all_iff)
  have l: "int (length (strip (replicate 40 32 @ asc ''Song'' @ [32, 9]))) \<le> MARQUEE_WINDOW_CHARS"
    unfolding st by (simp add: asc_def MARQUEE_WINDOW_CHARS_def)
  have g: "MARQUEE_WINDOW_CHARS < int (length (replicate 40 32 @ asc ''Song'' @ [32, 9]))"
    by (simp add: asc_def MARQUEE_WINDOW_CHARS_def)
  show ?thesis
    using marquee_uses_stripped_text
      [of "replicate 40 32 @ asc ''Song'' @ [32, 9]" "init :: unit app"]
      marquee_inv_init [where 'a = unit] l g
    unfolding st by blast
qed

section \<open>One timer at a time\<close>

lemma start_marquee_timers:
  assumes "marquee_inv s"
  shows "timers (start_marquee text s) =
     (if int (length (strip text)) \<le> MARQUEE_WINDOW_CHARS then []
      else [(next_id s, MARQUEE_START_PAUSE_MS)])"
proof (cases "int (length (strip text)) \<le> MARQUEE_WINDOW_CHARS")
  case True
  then show ?thesis by (simp add: start_marquee_static [OF assms])
next
  case False
  then have "MARQUEE_WINDOW_CHARS < int (length (strip text))" by simp
  then show ?thesis by (simp add: start_marquee_scroll [OF assms])
qed

lemma scroll_counts:
  assumes "marquee_inv s" and "\<not> stop s" and "MARQUEE_WINDOW_CHARS < int (length (strip text))"
  shows "length (timers ((fire_next ^^ k) (start_marquee text s))) = 1 \<and>
         length (shown ((fire_next ^^ k) (start_marquee text s))) =
           length (shown (start_marquee text s)) + k \<and>
         map snd (timers ((fire_next ^^ Suc k) (start_marquee text s))) = [MARQUEE_DELAY_MS]"
proof -
  have d: "map snd (timers ((fire_next ^^ Suc k) (start_marquee text s))) = [MARQUEE_DELAY_MS]"
    by (simp only: scroll_state [OF assms]) simp
  show ?thesis
  proof (cases k)
    case 0
    then show ?thesis using d by (simp add: start_marquee_scroll [OF assms(1,3)])
  next
    case (Suc j)
    have "length (timers ((fire_next ^^ Suc j) (start_marquee text s))) = 1"
      by (simp only: scroll_state [OF assms]) simp
    moreover have "length (shown ((fire_next ^^ Suc j) (start_marquee text s))) =
        length (shown s) + 1 + Suc j"
      by (simp only: scroll_state [OF assms]) simp
    moreover have "length (shown (start_marquee text s)) = length (shown s) + 1"
      by (simp add: start_marquee_scroll [OF assms(1,3)])
    ultimately have "length (timers ((fire_next ^^ Suc j) (start_marquee text s))) = 1 \<and>
        length (shown ((fire_next ^^ Suc j) (start_marquee text s))) =
          length (shown (start_marquee text s)) + Suc j"
      by simp
    then show ?thesis using d Suc by blast
  qed
qed

lemma mid_scroll_state:
  "timers (run (\<lambda>b sz. None) [Call (Start_marquee (replicate 37 97)), Fire 0, Fire 1] (init :: unit app)) = [(2, MARQUEE_DELAY_MS)] \<and>
   marquee_job (run (\<lambda>b sz. None) [Call (Start_marquee (replicate 37 97)), Fire 0, Fire 1] (init :: unit app)) = Some 2 \<and>
   next_id (run (\<lambda>b sz. None) [Call (Start_marquee (replicate 37 97)), Fire 0, Fire 1] (init :: unit app)) = 3 \<and>
   \<not> stop (run (\<lambda>b sz. None) [Call (Start_marquee (replicate 37 97)), Fire 0, Fire 1] (init :: unit app))"
proof -
  have st: "strip (replicate 37 97) = replicate 37 97"
    by (rule strip_id) (simp add: isspace_def)
  have h: "MARQUEE_WINDOW_CHARS < int (length (strip (replicate 37 97)))"
    unfolding st by (simp add: MARQUEE_WINDOW_CHARS_def)
  have ns: "\<not> stop (init :: unit app)" by (simp add: init_def)
  have n0: "next_id (init :: unit app) = 0" by (simp add: init_def)
  let ?s1 = "start_marquee (replicate 37 97) (init :: unit app)"
  have t1: "timers ?s1 = [(0, MARQUEE_START_PAUSE_MS)]"
    by (simp add: start_marquee_scroll [OF marquee_inv_init h] n0)
  have f1: "fire 0 ?s1 = (fire_next ^^ Suc 0) ?s1"
    using t1 by (simp add: fire_next_def)
  have t2: "timers ((fire_next ^^ Suc 0) ?s1) = [(1, MARQUEE_DELAY_MS)]"
    by (simp only: scroll_state [OF marquee_inv_init ns h]) (simp add: n0)
  have f2: "fire 1 ((fire_next ^^ Suc 0) ?s1) = (fire_next ^^ Suc 1) ?s1"
    using t2 by (simp add: fire_next_def)
  have r: "run (\<lambda>b sz. None) [Call (Start_marquee (replicate 37 97)), Fire 0, Fire 1] (init :: unit app)
      = (fire_next ^^ Suc 1) ?s1"
    unfolding f2 [symmetric] f1 [symmetric] by (simp add: run_def step_def run_call_def)
  show ?thesis
    unfolding r by (simp only: scroll_state [OF marquee_inv_init ns h]) (simp add: n0 ns)
qed

text \<open>
  Claim C4. In every state the window reaches from its initial state (scheduled calls
  run, timers fire, the window closes, in any order) at most one timer is pending.
  \<^verbatim>\<open>_start_marquee\<close> cancels what was pending: none of the timers pending before is
  pending after, and afterwards no timer is pending (the text fits) or exactly the new
  start-delay timer is. While the window is not closed and the text scrolls, every
  firing leaves exactly one timer pending, with the tick delay, and sets the display
  exactly once.
\<close>

theorem at_most_one_live_timer:
  "let s = run decode evs init; s' = start_marquee text s in
     length (timers s) \<le> 1 \<and>
     timers s' = (if int (length (strip text)) \<le> MARQUEE_WINDOW_CHARS then []
                  else [(next_id s, MARQUEE_START_PAUSE_MS)]) \<and>
     fst ` set (timers s) \<inter> fst ` set (timers s') = {} \<and>
     (\<not> stop s \<and> MARQUEE_WINDOW_CHARS < int (length (strip text)) \<longrightarrow>
        (\<forall>k. length (timers ((fire_next ^^ k) s')) = 1 \<and>
             length (shown ((fire_next ^^ k) s')) = length (shown s') + k \<and>
             map snd (timers ((fire_next ^^ Suc k) s')) = [MARQUEE_DELAY_MS]))"
proof -
  let ?s = "run decode evs init"
  have inv: "marquee_inv ?s" by (rule marquee_inv_run [OF marquee_inv_init])
  have one: "length (timers ?s) \<le> 1" using inv by (simp add: marquee_inv_def)
  have fresh: "\<forall>e \<in> set (timers ?s). fst e < next_id ?s" using inv by (simp add: marquee_inv_def)
  have disj: "fst ` set (timers ?s) \<inter> fst ` set (timers (start_marquee text ?s)) = {}"
    using fresh by (auto simp: start_marquee_timers [OF inv])
  have cnt: "\<not> stop ?s \<and> MARQUEE_WINDOW_CHARS < int (length (strip text)) \<longrightarrow>
        (\<forall>k. length (timers ((fire_next ^^ k) (start_marquee text ?s))) = 1 \<and>
             length (shown ((fire_next ^^ k) (start_marquee text ?s))) =
               length (shown (start_marquee text ?s)) + k \<and>
             map snd (timers ((fire_next ^^ Suc k) (start_marquee text ?s))) = [MARQUEE_DELAY_MS])"
    using scroll_counts [OF inv] by blast
  show ?thesis
    unfolding Let_def using one start_marquee_timers [OF inv] disj cnt by blast
qed

theorem at_most_one_live_timer_witness:
  "\<not> stop (run (\<lambda>b sz. None) [Call (Start_marquee (replicate 37 97)), Fire 0, Fire 1] (init :: unit app)) \<and>
   MARQUEE_WINDOW_CHARS < int (length (strip (replicate 38 98))) \<and>
   timers (run (\<lambda>b sz. None) [Call (Start_marquee (replicate 37 97)), Fire 0, Fire 1] (init :: unit app)) =
     [(2, MARQUEE_DELAY_MS)] \<and>
   timers (start_marquee (replicate 38 98)
      (run (\<lambda>b sz. None) [Call (Start_marquee (replicate 37 97)), Fire 0, Fire 1] (init :: unit app))) =
     [(3, MARQUEE_START_PAUSE_MS)] \<and>
   length (timers ((fire_next ^^ 5) (start_marquee (replicate 38 98)
      (run (\<lambda>b sz. None) [Call (Start_marquee (replicate 37 97)), Fire 0, Fire 1] (init :: unit app))))) = 1 \<and>
   length (shown ((fire_next ^^ 5) (start_marquee (replicate 38 98)
      (run (\<lambda>b sz. None) [Call (Start_marquee (replicate 37 97)), Fire 0, Fire 1] (init :: unit app))))) =
     length (shown (start_marquee (replicate 38 98)
      (run (\<lambda>b sz. None) [Call (Start_marquee (replicate 37 97)), Fire 0, Fire 1] (init :: unit app)))) + 5"
proof -
  let ?R = "run (\<lambda>b sz. None) [Call (Start_marquee (replicate 37 97)), Fire 0, Fire 1] (init :: unit app)"
  have st: "strip (replicate 38 98) = replicate 38 98"
    by (rule strip_id) (simp add: isspace_def)
  have h: "MARQUEE_WINDOW_CHARS < int (length (strip (replicate 38 98)))"
    unfolding st by (simp add: MARQUEE_WINDOW_CHARS_def)
  have nle: "\<not> int (length (strip (replicate 38 98))) \<le> MARQUEE_WINDOW_CHARS"
    using h by simp
  note m = mid_scroll_state
  from at_most_one_live_timer [of "\<lambda>b sz. None :: unit option" "[Call (Start_marquee (replicate 37 97)), Fire 0, Fire 1]" "replicate 38 98"]
  have a: "timers (start_marquee (replicate 38 98) ?R) = [(next_id ?R, MARQUEE_START_PAUSE_MS)]"
    and b: "\<forall>k. length (timers ((fire_next ^^ k) (start_marquee (replicate 38 98) ?R))) = 1 \<and>
             length (shown ((fire_next ^^ k) (start_marquee (replicate 38 98) ?R))) =
               length (shown (start_marquee (replicate 38 98) ?R)) + k \<and>
             map snd (timers ((fire_next ^^ Suc k) (start_marquee (replicate 38 98) ?R))) = [MARQUEE_DELAY_MS]"
    unfolding Let_def using nle h m by simp_all
  from b have b5: "length (timers ((fire_next ^^ 5) (start_marquee (replicate 38 98) ?R))) = 1 \<and>
             length (shown ((fire_next ^^ 5) (start_marquee (replicate 38 98) ?R))) =
               length (shown (start_marquee (replicate 38 98) ?R)) + 5"
    by blast
  have a3: "timers (start_marquee (replicate 38 98) ?R) = [(3, MARQUEE_START_PAUSE_MS)]"
    using a m by simp
  show ?thesis using m h a3 b5 by blast
qed

section \<open>From the worker to the window\<close>

lemma run_call_set_art_fields:
  "now_playing_var (run_call decode (Set_art a) s) = now_playing_var s \<and>
   shown (run_call decode (Set_art a) s) = shown s \<and>
   timers (run_call decode (Set_art a) s) = timers s"
  by (auto simp: run_call_def set_art_def set_art_try_def split: option.splits)

lemma run_call_set_art_image:
  "art_label_image (run_call decode (Set_art a) s) = art_label_image (run_call decode (Set_art a) s0) \<and>
   photo (run_call decode (Set_art a) s) = photo (run_call decode (Set_art a) s0)"
  by (auto simp: run_call_def set_art_def set_art_try_def split: option.splits)

lemma start_marquee_image:
  assumes "marquee_inv s"
  shows "art_label_image (start_marquee l s) = art_label_image s \<and>
         photo (start_marquee l s) = photo s"
proof (cases "int (length (strip l)) \<le> MARQUEE_WINDOW_CHARS")
  case True
  then show ?thesis by (simp add: start_marquee_static [OF assms])
next
  case False
  then have "MARQUEE_WINDOW_CHARS < int (length (strip l))" by simp
  then show ?thesis by (simp add: start_marquee_scroll [OF assms])
qed

lemma start_marquee_display:
  assumes "marquee_inv s" and "marquee_inv s0"
  shows "now_playing_var (start_marquee l s) = now_playing_var (start_marquee l s0) \<and>
         shown (start_marquee l s) = shown s @ [now_playing_var (start_marquee l s0)] \<and>
         map snd (timers (start_marquee l s)) = map snd (timers (start_marquee l s0))"
proof (cases "int (length (strip l)) \<le> MARQUEE_WINDOW_CHARS")
  case True
  then show ?thesis
    by (simp add: start_marquee_static [OF assms(1)] start_marquee_static [OF assms(2)])
next
  case False
  then have "MARQUEE_WINDOW_CHARS < int (length (strip l))" by simp
  then show ?thesis
    by (simp add: start_marquee_scroll [OF assms(1)] start_marquee_scroll [OF assms(2)])
qed

lemma drain_two_writes:
  "drain decode (after0 [Start_marquee l2, Set_art a2] (after0 [Start_marquee l1, Set_art a1] [])) s =
   run_call decode (Set_art a2) (start_marquee l2 (run_call decode (Set_art a1) (start_marquee l1 s)))"
  by (simp add: drain_def after0_def run_call_def)

lemma two_writes_state:
  assumes "marquee_inv s"
  shows "shown (drain decode (after0 [Start_marquee l2, Set_art a2] (after0 [Start_marquee l1, Set_art a1] [])) s) =
           shown s @ [now_playing_var (start_marquee l1 s), now_playing_var (start_marquee l2 s)]"
    and "now_playing_var (drain decode (after0 [Start_marquee l2, Set_art a2] (after0 [Start_marquee l1, Set_art a1] [])) s) =
           now_playing_var (start_marquee l2 s)"
    and "art_label_image (drain decode (after0 [Start_marquee l2, Set_art a2] (after0 [Start_marquee l1, Set_art a1] [])) s) =
           art_label_image (run_call decode (Set_art a2) s)"
    and "photo (drain decode (after0 [Start_marquee l2, Set_art a2] (after0 [Start_marquee l1, Set_art a1] [])) s) =
           photo (run_call decode (Set_art a2) s)"
    and "map snd (timers (drain decode (after0 [Start_marquee l2, Set_art a2] (after0 [Start_marquee l1, Set_art a1] [])) s)) =
           map snd (timers (start_marquee l2 s))"
    and "length (timers (drain decode (after0 [Start_marquee l2, Set_art a2] (after0 [Start_marquee l1, Set_art a1] [])) s)) \<le> 1"
proof -
  let ?s1 = "start_marquee l1 s"
  let ?s2 = "run_call decode (Set_art a1) ?s1"
  let ?s3 = "start_marquee l2 ?s2"
  let ?s4 = "run_call decode (Set_art a2) ?s3"
  have i1: "marquee_inv ?s1" by (rule marquee_inv_start [OF assms])
  have i2: "marquee_inv ?s2" by (rule marquee_inv_set_art [OF i1])
  have i3: "marquee_inv ?s3" by (rule marquee_inv_start [OF i2])
  have d: "drain decode (after0 [Start_marquee l2, Set_art a2] (after0 [Start_marquee l1, Set_art a1] [])) s = ?s4"
    by (rule drain_two_writes)
  have sh1: "shown ?s2 = shown s @ [now_playing_var (start_marquee l1 s)]"
    using start_marquee_display [OF assms assms, of l1] run_call_set_art_fields [of decode a1 ?s1]
    by simp
  have "shown ?s4 = shown ?s3" using run_call_set_art_fields [of decode a2 ?s3] by simp
  also have "\<dots> = shown ?s2 @ [now_playing_var (start_marquee l2 s)]"
    using start_marquee_display [OF i2 assms, of l2] by simp
  finally show "shown (drain decode (after0 [Start_marquee l2, Set_art a2] (after0 [Start_marquee l1, Set_art a1] [])) s) =
           shown s @ [now_playing_var (start_marquee l1 s), now_playing_var (start_marquee l2 s)]"
    unfolding d sh1 by simp
  show "now_playing_var (drain decode (after0 [Start_marquee l2, Set_art a2] (after0 [Start_marquee l1, Set_art a1] [])) s) =
           now_playing_var (start_marquee l2 s)"
    unfolding d
    using run_call_set_art_fields [of decode a2 ?s3] start_marquee_display [OF i2 assms, of l2]
    by simp
  show "art_label_image (drain decode (after0 [Start_marquee l2, Set_art a2] (after0 [Start_marquee l1, Set_art a1] [])) s) =
           art_label_image (run_call decode (Set_art a2) s)"
    unfolding d using run_call_set_art_image [of decode a2 ?s3 s] by simp
  show "photo (drain decode (after0 [Start_marquee l2, Set_art a2] (after0 [Start_marquee l1, Set_art a1] [])) s) =
           photo (run_call decode (Set_art a2) s)"
    unfolding d using run_call_set_art_image [of decode a2 ?s3 s] by simp
  show "map snd (timers (drain decode (after0 [Start_marquee l2, Set_art a2] (after0 [Start_marquee l1, Set_art a1] [])) s)) =
           map snd (timers (start_marquee l2 s))"
    unfolding d
    using run_call_set_art_fields [of decode a2 ?s3] start_marquee_display [OF i2 assms, of l2]
    by simp
  show "length (timers (drain decode (after0 [Start_marquee l2, Set_art a2] (after0 [Start_marquee l1, Set_art a1] [])) s)) \<le> 1"
    unfolding d
    using run_call_set_art_fields [of decode a2 ?s3] i3 by (simp add: marquee_inv_def)
qed


lemma strip_glyph_char: "\<not> isspace c \<Longrightarrow> strip (glyph @ [c]) = glyph @ [c]"
  by (rule strip_id) (simp add: glyph_def isspace_def)

text \<open>
  Claim C2, as stated: the channel is a single slot, and after two writes the window
  gets the second only. The worker hands each call to \<^verbatim>\<open>self.after(0, ...)\<close>; after two
  passes that both write, four calls are queued, not the two of the second write, and
  when the main loop runs them the display is set to the first line and then to the
  second.
\<close>

theorem channel_is_a_queue_counterexample:
  "poll_writes None
     [Session \<lparr> title = Some [97], artist = None, thumbnail = None \<rparr>,
      Session \<lparr> title = Some [98], artist = None, thumbnail = None \<rparr>] []
   = [Start_marquee (glyph @ [97]), Set_art None, Start_marquee (glyph @ [98]), Set_art None] \<and>
   poll_writes None
     [Session \<lparr> title = Some [97], artist = None, thumbnail = None \<rparr>,
      Session \<lparr> title = Some [98], artist = None, thumbnail = None \<rparr>] []
   \<noteq> [Start_marquee (glyph @ [98]), Set_art None] \<and>
   shown (drain (\<lambda>b sz. None)
     (poll_writes None
        [Session \<lparr> title = Some [97], artist = None, thumbnail = None \<rparr>,
         Session \<lparr> title = Some [98], artist = None, thumbnail = None \<rparr>] [])
     (init :: unit app))
   = [glyph @ [97], glyph @ [98]]"
proof -
  have q: "poll_writes None
     [Session \<lparr> title = Some [97], artist = None, thumbnail = None \<rparr>,
      Session \<lparr> title = Some [98], artist = None, thumbnail = None \<rparr>] []
    = after0 [Start_marquee (glyph @ [98]), Set_art None]
        (after0 [Start_marquee (glyph @ [97]), Set_art None] [])"
    by (simp add: update_iter_def get_now_playing_and_art_def or_empty_def strip_def isspace_def
        display_line_def)
  have l: "int (length (strip (glyph @ [c]))) \<le> MARQUEE_WINDOW_CHARS" if "\<not> isspace c" for c
    using that by (simp add: strip_glyph_char) (simp add: glyph_def MARQUEE_WINDOW_CHARS_def)
  have n: "now_playing_var (start_marquee (glyph @ [c]) (init :: unit app)) = glyph @ [c]"
    if "\<not> isspace c" for c
    using that by (simp add: start_marquee_static [OF marquee_inv_init l] strip_glyph_char)
  have a: "\<not> isspace 97" and b: "\<not> isspace 98" by (simp_all add: isspace_def)
  have sh: "shown (drain (\<lambda>b sz. None)
      (after0 [Start_marquee (glyph @ [98]), Set_art None]
        (after0 [Start_marquee (glyph @ [97]), Set_art None] [])) (init :: unit app))
    = [glyph @ [97], glyph @ [98]]"
    by (simp add: two_writes_state(1) [OF marquee_inv_init] n [OF a] n [OF b]) (simp add: init_def)
  show ?thesis unfolding q using sh by (simp add: after0_def)
qed

text \<open>
  Claim C2, amended. The calls of two writes are queued in the order they were written
  and the main loop runs all of them: the display is set for the first line and then
  for the second, nothing is dropped. Once they have run, the display line, the image
  and the delay of the pending timer are those the second write alone gives, and at
  most one timer is pending.
\<close>

theorem queued_updates_all_run_last_one_stays:
  assumes "marquee_inv s"
  shows "let q = after0 [Start_marquee l2, Set_art a2] (after0 [Start_marquee l1, Set_art a1] []);
             s' = drain decode q s in
     q = [Start_marquee l1, Set_art a1, Start_marquee l2, Set_art a2] \<and>
     shown s' = shown s @ [now_playing_var (start_marquee l1 s), now_playing_var (start_marquee l2 s)] \<and>
     now_playing_var s' = now_playing_var (start_marquee l2 s) \<and>
     art_label_image s' = art_label_image (run_call decode (Set_art a2) s) \<and>
     photo s' = photo (run_call decode (Set_art a2) s) \<and>
     map snd (timers s') = map snd (timers (start_marquee l2 s)) \<and>
     length (timers s') \<le> 1"
  unfolding Let_def
  using two_writes_state [OF assms, where decode = decode and ?l2.0 = l2 and ?a2.0 = a2
      and ?l1.0 = l1 and ?a1.0 = a1]
  by (simp add: after0_def)

theorem queued_updates_all_run_last_one_stays_witness:
  "marquee_inv (init :: unit app) \<and>
   shown (drain (\<lambda>b sz. None)
      (after0 [Start_marquee (glyph @ [98]), Set_art None]
        (after0 [Start_marquee (glyph @ [97]), Set_art (Some [1])] [])) (init :: unit app))
     = [glyph @ [97], glyph @ [98]] \<and>
   now_playing_var (drain (\<lambda>b sz. None)
      (after0 [Start_marquee (glyph @ [98]), Set_art None]
        (after0 [Start_marquee (glyph @ [97]), Set_art (Some [1])] [])) (init :: unit app))
     = glyph @ [98]"
proof -
  have l: "int (length (strip (glyph @ [c]))) \<le> MARQUEE_WINDOW_CHARS" if "\<not> isspace c" for c
    using that by (simp add: strip_glyph_char) (simp add: glyph_def MARQUEE_WINDOW_CHARS_def)
  have n: "now_playing_var (start_marquee (glyph @ [c]) (init :: unit app)) = glyph @ [c]"
    if "\<not> isspace c" for c
    using that by (simp add: start_marquee_static [OF marquee_inv_init l] strip_glyph_char)
  have a: "\<not> isspace 97" and b: "\<not> isspace 98" by (simp_all add: isspace_def)
  have e: "shown (init :: unit app) = []" by (simp add: init_def)
  show ?thesis
    using queued_updates_all_run_last_one_stays
      [OF marquee_inv_init, where decode = "\<lambda>b sz. None :: unit option" and ?l2.0 = "glyph @ [98]"
         and ?a2.0 = None and ?l1.0 = "glyph @ [97]" and ?a1.0 = "Some [1]"]
      marquee_inv_init [where 'a = unit]
    unfolding Let_def n [OF a] n [OF b] e append_Nil by blast
qed

end
